theory Spec2Isabelle
  imports Complex_Main
begin

unbundle bit_operations_syntax

section \<open>Chain verifier of \<open>examples/bln_verify.cpp\<close>\<close>

text \<open>
  The verifier reads Boolean chains, one step per line, and checks each chain against a
  target truth table. The model below follows \<open>verify\<close> and \<open>main\<close> statement by
  statement. C++ behaviour that the language leaves undefined (reading past the end of a
  line, a shift that overflows \<open>int\<close>, a bit index outside a truth table) and uncaught
  exceptions are values of type \<open>fault\<close>: a run that meets one of them has no verdict, and
  nothing is stated about what it prints or returns. \<open>verify\<close> returns \<open>Inr (r, msgs)\<close> when the
  C++ function returns \<open>r\<close> after printing the symmetry messages \<open>msgs\<close>, and \<open>Inl f\<close> when it
  meets the fault \<open>f\<close>.
\<close>

datatype fault = OutOfRange | FormatError | Overflow | InvalidArgument | ArgumentOutOfRange

text \<open>The three ways the body of the step loop can end: undefined behaviour, an early
  \<open>return\<close> of \<open>verify\<close>, or falling through to the next iteration.\<close>

datatype 'a flow = Fault fault | Return int | Continue 'a

subsection \<open>Truth tables (kitty)\<close>

text \<open>
  Modelled from the spec: \<open>kitty::dynamic_truth_table\<close> and its operations
  (\<open>kitty/kitty.hpp\<close> is not among the sources). Section 3 of the specification: a
  BitFunction of arity \<open>n\<close> stores exactly \<open>2 ^ n\<close> bits, bit index \<open>i\<close> encoding the assignment
  "variable \<open>k\<close> = bit \<open>k\<close> of \<open>i\<close>". A table is the list of its bits, bit \<open>0\<close> first. The
  default-constructed table, which \<open>std::unordered_map::operator[]\<close> creates for a missing
  key, has no bits.
\<close>

type_synonym truth_table = "bool list"

text \<open>Modelled from the spec: \<open>num_bits\<close>, the number of bits stored, \<open>2 ^ n\<close> for arity \<open>n\<close>.\<close>

definition num_bits :: "truth_table \<Rightarrow> nat" where
  "num_bits tt = length tt"

text \<open>Modelled from the spec: \<open>construct\<close>, "a fresh same-arity function" (all bits clear).\<close>

definition construct :: "truth_table \<Rightarrow> truth_table" where
  "construct tt = replicate (length tt) False"

text \<open>Modelled from the spec: \<open>getBit(i)\<close> / \<open>setBit(i)\<close>, "index must satisfy
  \<open>0 <= i < 2^arity\<close>; out-of-range is a programming error (fatal, not a reported violation)".\<close>

definition get_bit :: "truth_table \<Rightarrow> nat \<Rightarrow> fault + bool" where
  "get_bit tt i = (if i < length tt then Inr (tt ! i) else Inl OutOfRange)"

definition set_bit :: "truth_table \<Rightarrow> nat \<Rightarrow> fault + truth_table" where
  "set_bit tt i = (if i < length tt then Inr (tt[i := True]) else Inl OutOfRange)"

text \<open>Modelled from the spec: \<open>fromBinary(arity, bitString)\<close>, "decode an explicit 0/1 string of
  length \<open>2^arity\<close>; fails with FormatError on wrong length or non-binary characters". The
  first character is the most significant bit: Scenario A of the specification reads
  \<open>1000\<close> as the conjunction, whose only set bit is bit 3.\<close>

definition create_from_binary_string :: "nat \<Rightarrow> string \<Rightarrow> fault + truth_table" where
  "create_from_binary_string num_vars binary =
     (if length binary \<noteq> 2 ^ num_vars \<or> list_ex (\<lambda>c. c \<noteq> CHR ''0'' \<and> c \<noteq> CHR ''1'') binary
      then Inl FormatError
      else Inr (rev (map (\<lambda>c. c = CHR ''1'') binary)))"

text \<open>Modelled from the spec: the value of a hexadecimal digit, of either case, and its four
  bits, the most significant first.\<close>

definition hex_to_int :: "char \<Rightarrow> nat option" where
  "hex_to_int c =
     (let v = (of_char c :: nat) in
      if 48 \<le> v \<and> v \<le> 57 then Some (v - 48)
      else if 97 \<le> v \<and> v \<le> 102 then Some (v - 87)
      else if 65 \<le> v \<and> v \<le> 70 then Some (v - 55)
      else None)"

definition hex_digit_bits :: "char \<Rightarrow> bool list option" where
  "hex_digit_bits c =
     (case hex_to_int c of
        None \<Rightarrow> None
      | Some v \<Rightarrow> Some [odd (v div 8), odd (v div 4), odd (v div 2), odd v])"

text \<open>Modelled from the spec: \<open>fromHex(arity, hexString)\<close>, "decode a big-endian hex digit string
  into a \<open>2^arity\<close>-bit function; fails with FormatError if the string's implied bit length does
  not match \<open>2^arity\<close> (rounded to hex digit granularity)". Below two variables one digit
  carries the \<open>2 ^ n\<close> low bits.\<close>

definition create_from_hex_string :: "nat \<Rightarrow> string \<Rightarrow> fault + truth_table" where
  "create_from_hex_string num_vars hex =
     (case those (map hex_digit_bits hex) of
        None \<Rightarrow> Inl FormatError
      | Some digits \<Rightarrow>
          (let bits = rev (concat digits) in
           if num_vars < 2
           then (if length hex = 1 then Inr (take (2 ^ num_vars) bits) else Inl FormatError)
           else if 4 * length hex = 2 ^ num_vars then Inr bits
           else Inl FormatError))"

text \<open>Modelled from the spec: \<open>projection(arity, index)\<close>, "the function that equals the value of
  input variable \<open>index\<close>", written into a table of the given size.\<close>

definition create_nth_var :: "truth_table \<Rightarrow> nat \<Rightarrow> truth_table" where
  "create_nth_var tt var_index = map (\<lambda>i. odd (i div 2 ^ var_index)) [0..<length tt]"

text \<open>Modelled from the spec: \<open>equals(other)\<close>, "defined only for equal arity; bitwise comparison
  of all \<open>2^arity\<close> bits".\<close>

definition tt_equal :: "truth_table \<Rightarrow> truth_table \<Rightarrow> fault + bool" where
  "tt_equal first second =
     (if length first \<noteq> length second then Inl OutOfRange else Inr (first = second))"

text \<open>Modelled from the spec: the input index in which the values of the variables \<open>i\<close> and \<open>j\<close>
  are exchanged.\<close>

definition swap_vars :: "nat \<Rightarrow> nat \<Rightarrow> nat \<Rightarrow> nat" where
  "swap_vars i j idx =
     (let bi = odd (idx div 2 ^ i); bj = odd (idx div 2 ^ j) in
      if bi = bj then idx
      else if bi then idx - 2 ^ i + 2 ^ j
      else idx + 2 ^ i - 2 ^ j)"

text \<open>Modelled from the spec: \<open>is_symmetric_in\<close>, section 4.5: the target is symmetric in a pair
  of inputs when exchanging the two variables leaves the function unchanged.\<close>

definition is_symmetric_in :: "truth_table \<Rightarrow> nat \<Rightarrow> nat \<Rightarrow> bool" where
  "is_symmetric_in tt var_index1 var_index2 =
     list_all (\<lambda>idx. get_bit tt (swap_vars var_index1 var_index2 idx) = Inr (tt ! idx))
       [0..<length tt]"

subsection \<open>Standard library\<close>

text \<open>\<open>std::tolower\<close> in the "C" locale (the program never calls \<open>setlocale\<close>).\<close>

definition tolower :: "char \<Rightarrow> char" where
  "tolower c =
     (if 65 \<le> (of_char c :: nat) \<and> (of_char c :: nat) \<le> 90
      then char_of ((of_char c :: nat) + 32) else c)"

text \<open>\<open>std::lexicographical_compare\<close>: the first mismatch decides; a proper prefix is smaller.\<close>

fun lexicographical_compare :: "string \<Rightarrow> string \<Rightarrow> bool" where
  "lexicographical_compare [] [] = False"
| "lexicographical_compare [] (y # ys) = True"
| "lexicographical_compare (x # xs) [] = False"
| "lexicographical_compare (x # xs) (y # ys) =
     (if (of_char x :: nat) < of_char y then True
      else if (of_char y :: nat) < of_char x then False
      else lexicographical_compare xs ys)"

text \<open>\<open>std::find\<close>, as the offset of the iterator it returns: the position of the first
  element whose code equals the value, or the length when there is none. The value searched
  for is an \<open>unsigned\<close>, the elements are characters promoted to it.\<close>

fun find_pos :: "string \<Rightarrow> nat \<Rightarrow> nat" where
  "find_pos [] v = 0"
| "find_pos (c # cs) v = (if of_char c = v then 0 else Suc (find_pos cs v))"

text \<open>\<open>std::unordered_map::insert\<close> keeps the entry of a key that is already present.\<close>

definition map_insert :: "(char \<rightharpoonup> truth_table) \<Rightarrow> char \<Rightarrow> truth_table \<Rightarrow> (char \<rightharpoonup> truth_table)" where
  "map_insert m k v = (case m k of None \<Rightarrow> m(k \<mapsto> v) | Some old \<Rightarrow> m)"

text \<open>\<open>std::unordered_map::operator[]\<close> inserts a default-constructed table for a missing key
  and returns the entry.\<close>

definition map_index :: "(char \<rightharpoonup> truth_table) \<Rightarrow> char \<Rightarrow> (char \<rightharpoonup> truth_table) \<times> truth_table" where
  "map_index m k = (case m k of None \<Rightarrow> (m(k \<mapsto> []), []) | Some v \<Rightarrow> (m, v))"

subsection \<open>\<open>verify\<close>\<close>

record vstate =
  tables :: "char \<rightharpoonup> truth_table"
  schain :: string
  prev_gate :: string
  prev_supp :: string

text \<open>Lines 43 to 48: one projection per primary input, bound to \<open>'a' + i\<close>.\<close>

function init_tables ::
  "truth_table \<Rightarrow> nat \<Rightarrow> nat \<Rightarrow> (char \<rightharpoonup> truth_table) \<Rightarrow> (char \<rightharpoonup> truth_table)" where
  "init_tables spec num_vars i m =
     (if i < num_vars
      then init_tables spec num_vars (Suc i)
             (map_insert m (char_of (97 + i)) (create_nth_var (construct spec) i))
      else m)"
  by pat_completeness auto
termination
  by (relation "measure (\<lambda>(spec, num_vars, i, m). num_vars - i)") auto

text \<open>The state in which \<open>verify\<close> enters the loop over the steps.\<close>

definition init_state :: "truth_table \<Rightarrow> nat \<Rightarrow> vstate" where
  "init_state spec num_vars =
     \<lparr> tables = init_tables spec num_vars 0 Map.empty, schain = [], prev_gate = [],
       prev_supp = [] \<rparr>"

text \<open>
  Lines 93 to 110, the loop over the fanins of one step. The loop state is the table map
  (\<open>operator[]\<close> may extend it), the iterator \<open>it\<close> as an offset into the line,
  \<open>last_fanin\<close>, \<open>supp\<close> and \<open>vfanin\<close>. Dereferencing \<open>it\<close> at or past the end of the line
  is undefined, and so is \<open>std::tolower\<close> on a \<open>char\<close> of negative value, a byte above 127.
\<close>

type_synonym fstate = "(char \<rightharpoonup> truth_table) \<times> nat \<times> char \<times> string \<times> truth_table list"

function read_fanins ::
  "string \<Rightarrow> nat \<Rightarrow> nat \<Rightarrow> (char \<rightharpoonup> truth_table) \<Rightarrow> nat \<Rightarrow> char \<Rightarrow> string \<Rightarrow>
   truth_table list \<Rightarrow> fstate flow" where
  "read_fanins line fanin j tabs it last_fanin supp vfanin =
     (if j < fanin then
        (if length line \<le> it then Fault OutOfRange
         else if line ! it \<noteq> CHR '' '' then Return 0
         else if length line \<le> it + 1 then Fault OutOfRange
         else if 128 \<le> (of_char (line ! (it + 1)) :: nat) then Fault OutOfRange
         else if (of_char (tolower (line ! (it + 1))) :: nat) < of_char last_fanin then Return 0
         else read_fanins line fanin (Suc j)
                (fst (map_index tabs (line ! (it + 1)))) (it + 2) (tolower (line ! (it + 1)))
                (supp @ [tolower (line ! (it + 1))])
                (vfanin[j := snd (map_index tabs (line ! (it + 1)))]))
      else Continue (tabs, it, last_fanin, supp, vfanin))"
  by pat_completeness auto
termination
  by (relation "measure (\<lambda>(line, fanin, j, tabs, it, last_fanin, supp, vfanin). fanin - j)") auto

text \<open>Lines 137 to 141: the local pattern of the fanins at global input index \<open>i\<close>.\<close>

function pattern_loop :: "truth_table list \<Rightarrow> nat \<Rightarrow> nat \<Rightarrow> nat \<Rightarrow> nat \<Rightarrow> fault + nat" where
  "pattern_loop vfanin fanin i j pattern =
     (if j < fanin then
        (case get_bit (vfanin ! j) i of
           Inl f \<Rightarrow> Inl f
         | Inr b \<Rightarrow> pattern_loop vfanin fanin i (Suc j) (pattern OR push_bit j (of_bool b)))
      else Inr pattern)"
  by pat_completeness auto
termination
  by (relation "measure (\<lambda>(vfanin, fanin, i, j, pattern). fanin - j)") auto

text \<open>Lines 135 to 146: the function of one step, bit by bit, from index \<open>i\<close> on.\<close>

function simulate_loop ::
  "truth_table \<Rightarrow> truth_table list \<Rightarrow> nat \<Rightarrow> nat \<Rightarrow> nat \<Rightarrow> truth_table \<Rightarrow> fault + truth_table" where
  "simulate_loop gate vfanin fanin n i steptt =
     (if i < n then
        (case pattern_loop vfanin fanin i 0 0 of
           Inl f \<Rightarrow> Inl f
         | Inr pattern \<Rightarrow>
             (case get_bit gate pattern of
                Inl f \<Rightarrow> Inl f
              | Inr b \<Rightarrow>
                  if b then
                    (case set_bit steptt i of
                       Inl f \<Rightarrow> Inl f
                     | Inr steptt' \<Rightarrow> simulate_loop gate vfanin fanin n (Suc i) steptt')
                  else simulate_loop gate vfanin fanin n (Suc i) steptt))
      else Inr steptt)"
  by pat_completeness auto
termination
  by (relation "measure (\<lambda>(gate, vfanin, fanin, n, i, steptt). n - i)") auto

text \<open>
  Lines 62 to 148, the body of the loop over the steps, for step \<open>i\<close> and its line. The
  characters are compared by their codes: \<open>static_cast<char>('A' + num_vars + i)\<close> keeps the
  low eight bits of the sum. \<open>std::string(it, it + 3)\<close> and \<open>std::string(it, it + gate_length)\<close>
  are undefined when the line ends before; \<open>1 << fanin\<close> is an \<open>int\<close>: at 31 it is negative,
  so that \<open>it + gate_length\<close> lies before \<open>it\<close>, and beyond 31 the shift itself is undefined. \<open>std::find\<close> compares the characters of \<open>supp\<close> with the \<open>unsigned\<close>
  value \<open>'a' + num_vars + i - 1\<close>. The bound \<open>steptt.num_bits()\<close> of the simulation does not
  change in the loop.
\<close>

definition verify_step :: "nat \<Rightarrow> nat \<Rightarrow> truth_table \<Rightarrow> nat \<Rightarrow> string \<Rightarrow> vstate \<Rightarrow> vstate flow" where
  "verify_step num_vars fanin spec i line st =
     (if line = [] then Fault OutOfRange
      else if (of_char (hd line) :: nat) \<noteq> (65 + num_vars + i) mod 256 then Return 0
      else if length line < 4 then Fault OutOfRange
      else if take 3 (drop 1 line) \<noteq> '' = '' then Return 0
      else if 31 \<le> fanin then Fault Overflow
      else if length line < 4 + 2 ^ fanin then Fault OutOfRange
      else
        (case create_from_binary_string fanin (take (2 ^ fanin) (drop 4 line)) of
           Inl f \<Rightarrow> Fault f
         | Inr gate \<Rightarrow>
             (case get_bit gate 0 of
                Inl f \<Rightarrow> Fault f
              | Inr b \<Rightarrow>
                  if b then Return 0
                  else
                    (case read_fanins line fanin 0 (tables st) (4 + 2 ^ fanin) CHR ''a'' []
                            (replicate fanin [])
                     of
                       Fault f \<Rightarrow> Fault f
                     | Return r \<Rightarrow> Return r
                     | Continue (tabs, it, last_fanin, supp, vfanin) \<Rightarrow>
                         if supp = prev_supp st
                            \<and> \<not> lexicographical_compare (prev_gate st) (take (2 ^ fanin) (drop 4 line))
                         then Return 0
                         else if i \<noteq> 0 \<and> supp \<noteq> prev_supp st
                                 \<and> find_pos supp ((96 + num_vars + i) mod 2 ^ 32) = length supp
                                 \<and> \<not> lexicographical_compare (prev_supp st) supp
                         then Return 0
                         else if it \<noteq> length line then Return 0
                         else
                           (case simulate_loop gate vfanin fanin (num_bits (construct spec)) 0
                                   (construct spec)
                            of
                              Inl f \<Rightarrow> Fault f
                            | Inr steptt \<Rightarrow>
                                Continue \<lparr> tables = map_insert tabs (hd line) steptt,
                                           schain = schain st @ supp,
                                           prev_gate = take (2 ^ fanin) (drop 4 line),
                                           prev_supp = supp \<rparr>)))))"

text \<open>Lines 60 to 149: the loop over the steps, from step \<open>i\<close> on.\<close>

function verify_loop ::
  "string list \<Rightarrow> nat \<Rightarrow> nat \<Rightarrow> truth_table \<Rightarrow> nat \<Rightarrow> nat \<Rightarrow> vstate \<Rightarrow> vstate flow" where
  "verify_loop chain num_vars fanin spec steps i st =
     (if i < steps then
        (case verify_step num_vars fanin spec i (chain ! i) st of
           Fault f \<Rightarrow> Fault f
         | Return r \<Rightarrow> Return r
         | Continue st' \<Rightarrow> verify_loop chain num_vars fanin spec steps (Suc i) st')
      else Continue st)"
  by pat_completeness auto
termination
  by (relation "measure (\<lambda>(chain, num_vars, fanin, spec, steps, i, st). steps - i)") auto

text \<open>Lines 158 to 167: the symmetry check. Its only effect is the messages it prints, one
  per pair \<open>(i, j)\<close>, collected here in the order of the loops.\<close>

function symmetry_inner ::
  "truth_table \<Rightarrow> string \<Rightarrow> nat \<Rightarrow> nat \<Rightarrow> (nat \<times> nat) list \<Rightarrow> (nat \<times> nat) list" where
  "symmetry_inner spec sch j i msgs =
     (if i < j
      then symmetry_inner spec sch j (Suc i)
             (if is_symmetric_in spec i j
                 \<and> find_pos sch ((97 + j) mod 2 ^ 32) < find_pos sch ((97 + i) mod 2 ^ 32)
              then msgs @ [(i, j)] else msgs)
      else msgs)"
  by pat_completeness auto
termination
  by (relation "measure (\<lambda>(spec, sch, j, i, msgs). j - i)") auto

function symmetry_outer ::
  "truth_table \<Rightarrow> nat \<Rightarrow> string \<Rightarrow> nat \<Rightarrow> (nat \<times> nat) list \<Rightarrow> (nat \<times> nat) list" where
  "symmetry_outer spec num_vars sch j msgs =
     (if j < num_vars
      then symmetry_outer spec num_vars sch (Suc j) (symmetry_inner spec sch j 0 msgs)
      else msgs)"
  by pat_completeness auto
termination
  by (relation "measure (\<lambda>(spec, num_vars, sch, j, msgs). num_vars - j)") auto

text \<open>\<open>verify\<close>: the value returned and the symmetry messages printed (\<open>verbose\<close> is
  \<open>false\<close>, so nothing else is printed).\<close>

definition verify ::
  "string list \<Rightarrow> nat \<Rightarrow> string \<Rightarrow> nat \<Rightarrow> nat \<Rightarrow> fault + (int \<times> (nat \<times> nat) list)" where
  "verify chain num_vars hextt fanin steps =
     (case create_from_hex_string num_vars hextt of
        Inl f \<Rightarrow> Inl f
      | Inr spec \<Rightarrow>
          if length chain \<noteq> steps then Inr (0, [])
          else
            (case verify_loop chain num_vars fanin spec steps 0 (init_state spec num_vars) of
               Fault f \<Rightarrow> Inl f
             | Return r \<Rightarrow> Inr (r, [])
             | Continue st \<Rightarrow>
                 (case tt_equal (snd (map_index (tables st) (char_of (64 + num_vars + steps)))) spec of
                    Inl f \<Rightarrow> Inl f
                  | Inr eq \<Rightarrow>
                      if \<not> eq then Inr (0, [])
                      else Inr (1, symmetry_outer spec num_vars (schain st) 1 []))))"

subsection \<open>\<open>main\<close>\<close>

text \<open>\<open>std::isspace\<close> and \<open>std::isdigit\<close> in the "C" locale.\<close>

definition isspace :: "char \<Rightarrow> bool" where
  "isspace c = ((of_char c :: nat) = 32 \<or> (9 \<le> (of_char c :: nat) \<and> (of_char c :: nat) \<le> 13))"

definition isdigit :: "char \<Rightarrow> bool" where
  "isdigit c = (48 \<le> (of_char c :: nat) \<and> (of_char c :: nat) \<le> 57)"

text \<open>Modelled from the spec: \<open>kitty::detail::trim\<close> and \<open>trim_copy\<close>
  (\<open>kitty/detail/utils.hpp\<close> is not among the sources). Section 6 of the specification: the
  lines of a block are "non-empty trimmed lines", a line of white space only is blank.\<close>

definition trim :: "string \<Rightarrow> string" where
  "trim s = rev (dropWhile isspace (rev (dropWhile isspace s)))"

definition trim_copy :: "string \<Rightarrow> string" where
  "trim_copy s = trim s"

text \<open>\<open>std::stoi\<close>: white space, an optional sign, then decimal digits; the rest of the string
  is ignored. It throws \<open>std::invalid_argument\<close> when there is no digit and
  \<open>std::out_of_range\<close> when the value does not fit an \<open>int\<close>; \<open>main\<close> catches neither.\<close>

definition stoi :: "string \<Rightarrow> fault + int" where
  "stoi str =
     (let s = dropWhile isspace str;
          neg = (s \<noteq> [] \<and> hd s = CHR ''-'');
          body = (if s \<noteq> [] \<and> (hd s = CHR ''-'' \<or> hd s = CHR ''+'') then tl s else s);
          ds = takeWhile isdigit body;
          v = foldl (\<lambda>a d. 10 * a + (int (of_char d) - 48)) 0 ds;
          r = (if neg then - v else v)
      in if ds = [] then Inl InvalidArgument
         else if r < - 2147483648 \<or> 2147483647 < r then Inl ArgumentOutOfRange
         else Inr r)"

text \<open>The conversion of the \<open>int\<close> to \<open>unsigned\<close>.\<close>

definition to_unsigned :: "int \<Rightarrow> nat" where
  "to_unsigned r = nat (r mod 2 ^ 32)"

text \<open>The decimal digits \<open>operator<<\<close> writes for an \<open>unsigned\<close>.\<close>

function dec_string :: "nat \<Rightarrow> string" where
  "dec_string n =
     (if n < 10 then [char_of (48 + n)]
      else dec_string (n div 10) @ [char_of (48 + n mod 10)])"
  by pat_completeness auto
termination
  by (relation "measure (\<lambda>n. n)") auto

text \<open>\<open>argv[k]\<close>: \<open>argv[argc]\<close> is the null pointer, from which no \<open>std::string\<close> can be built,
  and the entries after it do not exist.\<close>

definition arg :: "string list \<Rightarrow> nat \<Rightarrow> fault + string" where
  "arg argv k = (if k < length argv then Inr (argv ! k) else Inl OutOfRange)"

text \<open>
  Lines 200 to 202 and 214 to 216: one chain is verified and counted. The state is
  \<open>points\<close>, \<open>violations\<close> and what \<open>verify\<close> has printed so far. Both counters are
  \<open>int\<close>s, and incrementing the largest \<open>int\<close> is undefined.
\<close>

type_synonym tally = "nat \<times> nat \<times> (nat \<times> nat) list"

definition score_chain ::
  "nat \<Rightarrow> string \<Rightarrow> nat \<Rightarrow> nat \<Rightarrow> string list \<Rightarrow> tally \<Rightarrow> fault + tally" where
  "score_chain num_vars hextt fanin steps chain t =
     (case t of (points, violations, printed) \<Rightarrow>
        (case verify chain num_vars hextt fanin steps of
           Inl f \<Rightarrow> Inl f
         | Inr (p, msgs) \<Rightarrow>
             if points = 2147483647 then Inl Overflow
             else Inr (points + 1, if p = 0 then violations + 1 else violations,
                       printed @ msgs)))"

text \<open>Lines 193 to 210: the loop over the lines that \<open>std::getline\<close> returns.\<close>

fun read_lines ::
  "nat \<Rightarrow> string \<Rightarrow> nat \<Rightarrow> nat \<Rightarrow> string list \<Rightarrow> string list \<times> tally \<Rightarrow>
   fault + (string list \<times> tally)" where
  "read_lines num_vars hextt fanin steps [] s = Inr s"
| "read_lines num_vars hextt fanin steps (line # rest) (chain, t) =
     (if trim line = [] then
        (if chain \<noteq> [] then
           (case score_chain num_vars hextt fanin steps chain t of
              Inl f \<Rightarrow> Inl f
            | Inr t' \<Rightarrow> read_lines num_vars hextt fanin steps rest ([], t'))
         else read_lines num_vars hextt fanin steps rest ([], t))
      else read_lines num_vars hextt fanin steps rest (chain @ [trim_copy (trim line)], t))"

text \<open>Lines 191 to 217: the loop and the chain left over at the end of the file.\<close>

definition process_lines ::
  "nat \<Rightarrow> string \<Rightarrow> nat \<Rightarrow> nat \<Rightarrow> string list \<Rightarrow> fault + tally" where
  "process_lines num_vars hextt fanin steps lines =
     (case read_lines num_vars hextt fanin steps lines ([], 0, 0, []) of
        Inl f \<Rightarrow> Inl f
      | Inr (chain, t) \<Rightarrow>
          if chain \<noteq> [] then score_chain num_vars hextt fanin steps chain t else Inr t)"

text \<open>\<open>1 << violations\<close> on a 32-bit \<open>int\<close>: shifting by 31 gives the smallest \<open>int\<close>,
  shifting further is undefined.\<close>

definition shift_one :: "nat \<Rightarrow> fault + int" where
  "shift_one v =
     (if v < 31 then Inr (2 ^ v)
      else if v = 31 then Inr (- (2 ^ 31))
      else Inl Overflow)"

text \<open>What a run of \<open>main\<close> leaves behind: the lines on \<open>std::cerr\<close>, the symmetry messages
  and the three numbers on \<open>std::cout\<close>, and the exit status.\<close>

record main_output =
  cerr :: "string list"
  symmetry_messages :: "(nat \<times> nat) list"
  violations_line :: nat
  solutions_line :: nat
  points_line :: rat
  exit_status :: int

text \<open>
  \<open>main\<close>, lines 172 to 222. The file system is a function from file names to the lines
  of the file; a file that cannot be opened yields no line. The quotient is computed on
  \<open>double\<close>: both operands are integers below \<open>2 ^ 53\<close> in absolute value and the divisor is a
  power of two, so it is exact.
\<close>

definition main :: "string list \<Rightarrow> (string \<Rightarrow> string list option) \<Rightarrow> fault + main_output" where
  "main argv fs =
     (case arg argv 0 of
        Inl f \<Rightarrow> Inl f
      | Inr prog \<Rightarrow>
     (case arg argv 1 of Inl f \<Rightarrow> Inl f | Inr a1 \<Rightarrow>
     (case stoi a1 of Inl f \<Rightarrow> Inl f | Inr v1 \<Rightarrow>
     (case arg argv 2 of Inl f \<Rightarrow> Inl f | Inr hextt \<Rightarrow>
     (case arg argv 3 of Inl f \<Rightarrow> Inl f | Inr a3 \<Rightarrow>
     (case stoi a3 of Inl f \<Rightarrow> Inl f | Inr v3 \<Rightarrow>
     (case arg argv 4 of Inl f \<Rightarrow> Inl f | Inr a4 \<Rightarrow>
     (case stoi a4 of Inl f \<Rightarrow> Inl f | Inr v4 \<Rightarrow>
        (let num_vars = to_unsigned v1; fanin = to_unsigned v3; steps = to_unsigned v4;
             filename = hextt @ ''-'' @ dec_string fanin @ ''-'' @ dec_string steps @ ''.bln'';
             lines = (case fs filename of None \<Rightarrow> [] | Some ls \<Rightarrow> ls)
         in case process_lines num_vars hextt fanin steps lines of
              Inl f \<Rightarrow> Inl f
            | Inr (points, violations, printed) \<Rightarrow>
                (case shift_one violations of
                   Inl f \<Rightarrow> Inl f
                 | Inr d \<Rightarrow>
                     Inr \<lparr> cerr = (if length argv \<noteq> 5
                                   then [''[e] usage '' @ prog @ '' <#VARS> <HEX-TT> <#FANIN> <#STEPS>'']
                                   else []),
                           symmetry_messages = printed,
                           violations_line = violations,
                           solutions_line = points,
                           points_line = of_nat points / of_int d,
                           exit_status = 0 \<rparr>))))))))))"

subsection \<open>Notions used in the statements\<close>

text \<open>The parts of a step line \<open>X = <gate> <f0> <f1> ...\<close> as \<open>verify\<close> reads them: the gate
  string after the four leading characters, and the fanin identifiers at every second
  position after it.\<close>

definition gate_of :: "nat \<Rightarrow> string \<Rightarrow> string" where
  "gate_of fanin line = take (2 ^ fanin) (drop 4 line)"

definition fanin_id :: "nat \<Rightarrow> string \<Rightarrow> nat \<Rightarrow> char" where
  "fanin_id fanin line m = line ! (4 + 2 ^ fanin + 2 * m + 1)"

text \<open>The support of a step: its fanin identifiers, lowercased.\<close>

definition supp_of :: "nat \<Rightarrow> string \<Rightarrow> string" where
  "supp_of fanin line = map (\<lambda>m. tolower (fanin_id fanin line m)) [0..<fanin]"

text \<open>The table an identifier stands for in a table map: the bound table, or the empty
  table that \<open>operator[]\<close> creates.\<close>

definition table_of :: "(char \<rightharpoonup> truth_table) \<Rightarrow> char \<Rightarrow> truth_table" where
  "table_of m c = snd (map_index m c)"

text \<open>The name of step \<open>i\<close>: the character \<open>'A' + num_vars + i\<close>.\<close>

definition step_name :: "nat \<Rightarrow> nat \<Rightarrow> char" where
  "step_name num_vars i = char_of (65 + num_vars + i)"

text \<open>An identifier is bound before step \<open>i\<close> when it is the letter of a primary input or
  the name of an earlier step.\<close>

definition is_bound :: "nat \<Rightarrow> nat \<Rightarrow> char \<Rightarrow> bool" where
  "is_bound num_vars i c =
     (list_ex (\<lambda>v. c = char_of (97 + v)) [0..<num_vars]
      \<or> list_ex (\<lambda>s. c = char_of (65 + num_vars + s)) [0..<i])"

text \<open>The colexicographic order of the specification, section 4.3: "compare from the last
  character backward".\<close>

definition colex_less :: "string \<Rightarrow> string \<Rightarrow> bool" where
  "colex_less a b = lexicographical_compare (rev a) (rev b)"

text \<open>The evaluation of a step as section 4.4 of the specification words it: at the global
  input index \<open>x\<close> the local pattern has, at bit position \<open>j\<close>, the bit of the \<open>j\<close>-th fanin's function at
  \<open>x\<close>; the output bit at \<open>x\<close> is the bit of the gate's table at that pattern.\<close>

definition local_pattern :: "truth_table list \<Rightarrow> nat \<Rightarrow> nat" where
  "local_pattern fanins x = horner_sum of_bool 2 (map (\<lambda>f. f ! x) fanins)"




text \<open>The condition under which the symmetry check prints the pair \<open>(i, j)\<close>: the target is
  symmetric in the two inputs and the letter of \<open>j\<close> occurs in the concatenated supports
  before the letter of \<open>i\<close>.\<close>

definition advisory :: "truth_table \<Rightarrow> string \<Rightarrow> nat \<Rightarrow> nat \<Rightarrow> bool" where
  "advisory spec sch i j =
     (is_symmetric_in spec i j
      \<and> find_pos sch ((97 + j) mod 2 ^ 32) < find_pos sch ((97 + i) mod 2 ^ 32))"



text \<open>The conjunction of three inputs, target \<open>80\<close>, and the state in which \<open>verify\<close> leaves
  the loop over the chain \<open>D = 1000 b c\<close>, \<open>E = 1000 a D\<close>.\<close>

definition and3_spec :: truth_table where
  "and3_spec = [False, False, False, False, False, False, False, True]"

definition and3_final :: vstate where
  "and3_final =
     \<lparr> tables = [CHR ''a'' \<mapsto> [False, True, False, True, False, True, False, True],
                 CHR ''b'' \<mapsto> [False, False, True, True, False, False, True, True],
                 CHR ''c'' \<mapsto> [False, False, False, False, True, True, True, True],
                 CHR ''D'' \<mapsto> [False, False, False, False, False, False, True, True],
                 CHR ''E'' \<mapsto> [False, False, False, False, False, False, False, True]],
       schain = ''bcad'', prev_gate = ''1000'', prev_supp = ''ad'' \<rparr>"



declare init_tables.simps [simp del] read_fanins.simps [simp del] pattern_loop.simps [simp del]
  simulate_loop.simps [simp del] verify_loop.simps [simp del] symmetry_inner.simps [simp del]
  symmetry_outer.simps [simp del] dec_string.simps [simp del]

section \<open>Properties\<close>

subsection \<open>Evaluation\<close>

text \<open>The rewrite rules that evaluate the model on a concrete chain.\<close>

lemma char_of_numeral_eq:
  "char_of (numeral w :: nat) = c \<longleftrightarrow> numeral w mod 256 = (of_char c :: nat)"
  by (simp add: char_of_eq_iff take_bit_eq_mod)

lemma eq_char_of_numeral:
  "c = char_of (numeral w :: nat) \<longleftrightarrow> numeral w mod 256 = (of_char c :: nat)"
  using char_of_numeral_eq [of w c] by blast

lemma input_letters:
  "char_of (97::nat) = CHR ''a''" "char_of (98::nat) = CHR ''b''" "char_of (99::nat) = CHR ''c''"
  "char_of (100::nat) = CHR ''d''"
  by (simp_all add: char_of_numeral_eq)

lemmas kitty_defs = create_from_hex_string_def hex_digit_bits_def hex_to_int_def
  create_from_binary_string_def get_bit_def set_bit_def construct_def num_bits_def
  create_nth_var_def tt_equal_def is_symmetric_in_def swap_vars_def

lemmas std_defs = tolower_def map_insert_def map_index_def char_of_numeral_eq
  eq_char_of_numeral upt_rec

lemmas verify_defs = verify_def verify_step_def init_state_def init_tables.simps
  read_fanins.simps pattern_loop.simps simulate_loop.simps verify_loop.simps
  symmetry_inner.simps symmetry_outer.simps gate_of_def fanin_id_def supp_of_def

lemmas main_defs = main_def arg_def stoi_def isspace_def isdigit_def to_unsigned_def
  dec_string.simps process_lines_def score_chain_def trim_def trim_copy_def shift_one_def
  char_of_numeral_eq eq_char_of_numeral

text \<open>Scenarios A, B and C of the specification: the conjunction of two inputs, target \<open>8\<close>.\<close>

lemma scenario_A: "verify [''C = 1000 a b''] 2 ''8'' 2 1 = Inr (1, [])"
  by (simp add: verify_defs kitty_defs std_defs)

lemma scenario_B: "verify [''C = 0001 a b''] 2 ''8'' 2 1 = Inr (0, [])"
  by (simp add: verify_defs kitty_defs std_defs)


lemmas scenario_A_Suc = scenario_A [unfolded One_nat_def]

lemmas scenario_B_Suc = scenario_B [unfolded One_nat_def]

lemma and3_hex: "create_from_hex_string 3 ''80'' = Inr and3_spec"
  by (simp add: kitty_defs and3_spec_def)

lemma and3_loop:
  "verify_loop [''D = 1000 b c'', ''E = 1000 a D''] 3 2 and3_spec 2 0 (init_state and3_spec 3)
     = Continue and3_final"
  by (simp add: verify_defs kitty_defs std_defs input_letters and3_spec_def and3_final_def)

lemma and3_verify:
  "verify [''D = 1000 b c'', ''E = 1000 a D''] 3 ''80'' 2 2 = Inr (1, [(0, 1), (0, 2)])"
  by (simp add: verify_defs kitty_defs std_defs)


subsection \<open>Truth tables\<close>

lemma those_hex_length:
  "those (map hex_digit_bits hex) = Some digits \<Longrightarrow> length (concat digits) = 4 * length hex"
  by (induction hex arbitrary: digits) (auto simp: hex_digit_bits_def split: option.splits)

lemma create_from_hex_string_length:
  assumes "create_from_hex_string n hex = Inr spec"
  shows "length spec = 2 ^ n"
proof -
  from assms obtain digits where d: "those (map hex_digit_bits hex) = Some digits"
    and r: "(if n < 2 then (if length hex = 1 then Inr (take (2 ^ n) (rev (concat digits)))
                            else Inl FormatError)
             else if 4 * length hex = 2 ^ n then Inr (rev (concat digits))
             else Inl FormatError) = Inr spec"
    by (auto simp: create_from_hex_string_def Let_def split: option.splits)
  note len = those_hex_length [OF d]
  show ?thesis
  proof (cases "n < 2")
    case True
    then have "n = 0 \<or> n = 1" by auto
    with r len True show ?thesis by (auto split: if_splits)
  next
    case False
    with r len show ?thesis by (auto split: if_splits)
  qed
qed

lemma create_from_binary_string_length:
  "create_from_binary_string k s = Inr gate \<Longrightarrow> length gate = 2 ^ k"
  by (auto simp: create_from_binary_string_def split: if_splits)

lemma dom_map_insert: "dom (map_insert m c t) = insert c (dom m)"
  by (auto simp: map_insert_def split: option.splits)




lemma table_of_unbound: "c \<notin> dom m \<Longrightarrow> table_of m c = []"
  by (auto simp: table_of_def map_index_def split: option.splits)

lemma table_of_map_index: "table_of (fst (map_index m c)) k = table_of m k"
  by (auto simp: table_of_def map_index_def split: option.splits)

lemma map_index_bound: "c \<in> dom m \<Longrightarrow> fst (map_index m c) = m"
  by (auto simp: map_index_def split: option.splits)



lemma init_tables_dom:
  "c \<in> dom (init_tables spec n i m) \<Longrightarrow> c \<in> dom m \<or> (\<exists>v<n. c = char_of (97 + v))"
proof (induction spec n i m rule: init_tables.induct)
  case (1 spec n i m)
  show ?case
  proof (cases "i < n")
    case True
    with "1.prems" have "c \<in> dom (init_tables spec n (Suc i)
        (map_insert m (char_of (97 + i)) (create_nth_var (construct spec) i)))"
      by (subst (asm) init_tables.simps) simp
    from "1.IH" [OF True this] True show ?thesis
      by (auto simp: dom_map_insert)
  next
    case False
    with "1.prems" show ?thesis
      by (subst (asm) init_tables.simps) simp
  qed
qed



subsection \<open>The loops of one step\<close>


lemma read_fanins_Return:
  "read_fanins line fanin j tabs it last_fanin supp vfanin = Return r \<Longrightarrow> r = 0"
proof (induction line fanin j tabs it last_fanin supp vfanin rule: read_fanins.induct)
  case (1 line fanin j tabs it last_fanin supp vfanin)
  from "1.prems" show ?case
    by (subst (asm) read_fanins.simps) (auto split: if_splits dest: "1.IH")
qed

lemma read_fanins_unfold:
  assumes "read_fanins line fanin j tabs it last_fanin supp vfanin = Continue s" and "j < fanin"
  shows "\<not> length line \<le> it" and "\<not> line ! it \<noteq> CHR '' ''" and "\<not> length line \<le> it + 1"
    and "\<not> 128 \<le> (of_char (line ! (it + 1)) :: nat)"
    and "\<not> (of_char (tolower (line ! (it + 1))) :: nat) < of_char last_fanin"
    and "read_fanins line fanin (Suc j) (fst (map_index tabs (line ! (it + 1)))) (it + 2)
           (tolower (line ! (it + 1))) (supp @ [tolower (line ! (it + 1))])
           (vfanin[j := snd (map_index tabs (line ! (it + 1)))]) = Continue s"
  using assms by (subst (asm) read_fanins.simps, simp split: if_splits)+

lemma read_fanins_supp:
  "read_fanins line fanin j tabs it last_fanin supp vfanin = Continue (tabs', it', last', supp', vfanin')
   \<Longrightarrow> j \<le> fanin
   \<Longrightarrow> it' = it + 2 * (fanin - j)
       \<and> supp' = supp @ map (\<lambda>m. tolower (line ! (it + 2 * m + 1))) [0..<fanin - j]
       \<and> length vfanin' = length vfanin
       \<and> (\<forall>c. table_of tabs' c = table_of tabs c)"
proof (induction line fanin j tabs it last_fanin supp vfanin rule: read_fanins.induct)
  case (1 line fanin j tabs it last_fanin supp vfanin)
  show ?case
  proof (cases "j < fanin")
    case False
    with "1.prems" show ?thesis
      by (subst (asm) read_fanins.simps) simp
  next
    case True
    then have d: "fanin - j = Suc (fanin - Suc j)"
      by simp
    note ok = read_fanins_unfold(1-5) [OF "1.prems"(1) True]
    note rec = read_fanins_unfold(6) [OF "1.prems"(1) True]
    from "1.IH" [OF True ok rec] True
    show ?thesis
      by (simp add: d map_upt_Suc table_of_map_index del: upt_Suc)
  qed
qed


lemma read_fanins_vfanin:
  "read_fanins line fanin j tabs it last_fanin supp vfanin = Continue (tabs', it', last', supp', vfanin')
   \<Longrightarrow> j \<le> fanin \<Longrightarrow> fanin \<le> length vfanin
   \<Longrightarrow> (\<forall>m<fanin - j. vfanin' ! (j + m) = table_of tabs (line ! (it + 2 * m + 1)))
       \<and> (\<forall>m<j. vfanin' ! m = vfanin ! m)"
proof (induction line fanin j tabs it last_fanin supp vfanin rule: read_fanins.induct)
  case (1 line fanin j tabs it last_fanin supp vfanin)
  show ?case
  proof (cases "j < fanin")
    case False
    with "1.prems" show ?thesis
      by (subst (asm) read_fanins.simps) simp
  next
    case True
    note ok = read_fanins_unfold(1-5) [OF "1.prems"(1) True]
    note rec = read_fanins_unfold(6) [OF "1.prems"(1) True]
    from "1.IH" [OF True ok rec] True "1.prems"(3)
    have ih1: "\<forall>m<fanin - Suc j. vfanin' ! (Suc j + m) = table_of tabs (line ! (it + 2 + 2 * m + 1))"
      and ih2: "\<forall>m<Suc j. vfanin' ! m = vfanin[j := snd (map_index tabs (line ! (it + 1)))] ! m"
      by (simp_all add: table_of_map_index)
    have a: "vfanin' ! (j + m) = table_of tabs (line ! (it + 2 * m + 1))" if m: "m < fanin - j" for m
    proof (cases m)
      case 0
      with ih2 True "1.prems"(3) show ?thesis by (simp add: table_of_def)
    next
      case (Suc m')
      with m have "m' < fanin - Suc j" by simp
      with ih1 have "vfanin' ! (Suc j + m') = table_of tabs (line ! (it + 2 + 2 * m' + 1))"
        by blast
      then show ?thesis by (simp add: Suc add.commute add.left_commute)
    qed
    have b: "vfanin' ! m = vfanin ! m" if "m < j" for m
      using ih2 that by simp
    from a b show ?thesis by blast
  qed
qed

lemma read_fanins_tabs:
  "read_fanins line fanin j tabs it last_fanin supp vfanin = Continue (tabs', it', last', supp', vfanin')
   \<Longrightarrow> j \<le> fanin
   \<Longrightarrow> \<forall>m<fanin - j. line ! (it + 2 * m + 1) \<in> dom tabs
   \<Longrightarrow> tabs' = tabs"
proof (induction line fanin j tabs it last_fanin supp vfanin rule: read_fanins.induct)
  case (1 line fanin j tabs it last_fanin supp vfanin)
  show ?case
  proof (cases "j < fanin")
    case False
    with "1.prems" show ?thesis
      by (subst (asm) read_fanins.simps) simp
  next
    case True
    note ok = read_fanins_unfold(1-5) [OF "1.prems"(1) True]
    note rec = read_fanins_unfold(6) [OF "1.prems"(1) True]
    from "1.prems"(3) True have first: "line ! (it + 1) \<in> dom tabs"
      by (metis add.right_neutral mult_0_right zero_less_diff)
    then have same: "fst (map_index tabs (line ! (it + 1))) = tabs"
      by (rule map_index_bound)
    have rest: "\<forall>m<fanin - Suc j. line ! (it + 2 + 2 * m + 1) \<in> dom tabs"
    proof (intro allI impI)
      fix m assume "m < fanin - Suc j"
      then have "Suc m < fanin - j" by simp
      with "1.prems"(3) have "line ! (it + 2 * Suc m + 1) \<in> dom tabs" by blast
      then show "line ! (it + 2 + 2 * m + 1) \<in> dom tabs"
        by (simp add: add.commute add.left_commute)
    qed
    from "1.IH" [OF True ok rec] True rest same show ?thesis by simp
  qed
qed

lemma pattern_loop_Inr:
  "pattern_loop vfanin k x j p = Inr p' \<Longrightarrow>
     (\<forall>m. j \<le> m \<and> m < k \<longrightarrow> x < length (vfanin ! m))
     \<and> (\<forall>m. bit p' m \<longleftrightarrow> bit p m \<or> (j \<le> m \<and> m < k \<and> vfanin ! m ! x))"
proof (induction vfanin k x j p rule: pattern_loop.induct)
  case (1 vfanin k x j p)
  show ?case
  proof (cases "j < k")
    case False
    with "1.prems" show ?thesis
      by (subst (asm) pattern_loop.simps) auto
  next
    case True
    with "1.prems" obtain b where b: "get_bit (vfanin ! j) x = Inr b"
      and rec: "pattern_loop vfanin k x (Suc j) (p OR push_bit j (of_bool b)) = Inr p'"
      by (subst (asm) pattern_loop.simps) (auto split: sum.splits)
    from b have here: "x < length (vfanin ! j)" "b = vfanin ! j ! x"
      by (auto simp: get_bit_def split: if_splits)
    from "1.IH" [OF True b rec]
    have ih1: "\<forall>m. Suc j \<le> m \<and> m < k \<longrightarrow> x < length (vfanin ! m)"
      and ih2: "\<forall>m. bit p' m \<longleftrightarrow> bit (p OR push_bit j (of_bool b)) m \<or> (Suc j \<le> m \<and> m < k \<and> vfanin ! m ! x)"
      by blast+
    have one: "bit (p OR push_bit j (of_bool b)) m \<longleftrightarrow> bit p m \<or> (m = j \<and> b)" for m
      by (cases b) (auto simp: bit_or_iff bit_exp_iff)
    have "x < length (vfanin ! m)" if "j \<le> m \<and> m < k" for m
      using that here(1) ih1 by (cases "m = j") auto
    moreover have "bit p' m \<longleftrightarrow> bit p m \<or> (j \<le> m \<and> m < k \<and> vfanin ! m ! x)" for m
      unfolding ih2 [rule_format] one using True here(2) by (cases "m = j") auto
    ultimately show ?thesis by blast
  qed
qed

lemma pattern_loop_local_pattern:
  assumes "pattern_loop vfanin k x 0 0 = Inr p" and "length vfanin = k"
  shows "p = local_pattern vfanin x" and "p < 2 ^ k" and "\<forall>m<k. x < length (vfanin ! m)"
proof -
  from pattern_loop_Inr [OF assms(1)]
  have bits: "\<And>m. bit p m \<longleftrightarrow> m < k \<and> vfanin ! m ! x"
    and len: "\<forall>m<k. x < length (vfanin ! m)"
    by auto
  show "p = local_pattern vfanin x"
    by (rule bit_eqI) (auto simp: bits local_pattern_def bit_horner_sum_bit_iff assms(2))
  have "p = take_bit k p"
    by (rule bit_eqI) (auto simp: bits bit_take_bit_iff)
  then show "p < 2 ^ k"
    by (metis take_bit_nat_less_exp)
  from len show "\<forall>m<k. x < length (vfanin ! m)" .
qed

lemma simulate_loop_Inr:
  "simulate_loop gate vfanin k N x s = Inr s' \<Longrightarrow> N \<le> length s \<Longrightarrow>
     length s' = length s
     \<and> (\<forall>y<x. s' ! y = s ! y)
     \<and> (\<forall>y. x \<le> y \<and> y < N \<longrightarrow>
           (\<exists>p. pattern_loop vfanin k y 0 0 = Inr p \<and> p < length gate
                \<and> (s' ! y \<longleftrightarrow> s ! y \<or> gate ! p)))"
proof (induction gate vfanin k N x s rule: simulate_loop.induct)
  case (1 gate vfanin k N x s)
  show ?case
  proof (cases "x < N")
    case False
    with "1.prems" show ?thesis
      by (subst (asm) simulate_loop.simps) auto
  next
    case True
    with "1.prems"(1) obtain p b where p: "pattern_loop vfanin k x 0 0 = Inr p"
      and b: "get_bit gate p = Inr b"
      by (subst (asm) simulate_loop.simps) (auto split: sum.splits)
    from b have pg: "p < length gate" "b = gate ! p"
      by (auto simp: get_bit_def split: if_splits)
    define s1 where "s1 = (if b then s[x := True] else s)"
    have len1: "length s1 = length s" by (simp add: s1_def)
    have rec: "simulate_loop gate vfanin k N (Suc x) s1 = Inr s'"
      using "1.prems" True p b
      by (subst (asm) simulate_loop.simps) (auto simp: s1_def set_bit_def split: if_splits)
    have ih: "length s' = length s1
        \<and> (\<forall>y<Suc x. s' ! y = s1 ! y)
        \<and> (\<forall>y. Suc x \<le> y \<and> y < N \<longrightarrow>
             (\<exists>p. pattern_loop vfanin k y 0 0 = Inr p \<and> p < length gate
                  \<and> (s' ! y \<longleftrightarrow> s1 ! y \<or> gate ! p)))"
    proof (cases b)
      case True
      with b "1.prems" \<open>x < N\<close> have sb: "set_bit s x = Inr s1"
        by (simp add: set_bit_def s1_def)
      from "1.IH"(1) [OF \<open>x < N\<close> p b True sb rec] len1 "1.prems"(2) show ?thesis by simp
    next
      case False
      then have "s1 = s" by (simp add: s1_def)
      with "1.IH"(2) [OF \<open>x < N\<close> p b False] rec "1.prems"(2) show ?thesis by simp
    qed
    have xs: "x < length s" using True "1.prems"(2) by simp
    have a: "\<forall>y<x. s' ! y = s ! y"
      using ih xs by (auto simp: s1_def)
    have c: "\<exists>p. pattern_loop vfanin k y 0 0 = Inr p \<and> p < length gate
                \<and> (s' ! y \<longleftrightarrow> s ! y \<or> gate ! p)" if y: "x \<le> y \<and> y < N" for y
    proof (cases "y = x")
      case True
      from ih have "s' ! x = s1 ! x" by simp
      with xs pg have "s' ! x \<longleftrightarrow> s ! x \<or> gate ! p"
        by (auto simp: s1_def)
      with p pg True show ?thesis by blast
    next
      case False
      with y have y': "Suc x \<le> y \<and> y < N" by simp
      with ih obtain q where q: "pattern_loop vfanin k y 0 0 = Inr q" "q < length gate"
        "s' ! y \<longleftrightarrow> s1 ! y \<or> gate ! q"
        by blast
      from False have "s1 ! y = s ! y" by (simp add: s1_def)
      with q show ?thesis by blast
    qed
    from ih len1 a c show ?thesis by simp
  qed
qed


subsection \<open>The loop over the steps\<close>

lemma verify_step_Return: "verify_step n k spec i line st = Return r \<Longrightarrow> r = 0"
  unfolding verify_step_def
  by (auto split: if_splits sum.splits flow.splits prod.splits dest: read_fanins_Return)

lemma verify_step_Continue:
  assumes "verify_step n k spec i line st = Continue st'"
  shows "\<exists>gate tabs last_fanin supp vfanin steptt.
           line \<noteq> [] \<and> (of_char (hd line) :: nat) = (65 + n + i) mod 256 \<and> k < 31
         \<and> 4 + 2 ^ k \<le> length line
         \<and> create_from_binary_string k (gate_of k line) = Inr gate
         \<and> get_bit gate 0 = Inr False
         \<and> read_fanins line k 0 (tables st) (4 + 2 ^ k) CHR ''a'' [] (replicate k [])
             = Continue (tabs, length line, last_fanin, supp, vfanin)
         \<and> \<not> (supp = prev_supp st \<and> \<not> lexicographical_compare (prev_gate st) (gate_of k line))
         \<and> \<not> (i \<noteq> 0 \<and> supp \<noteq> prev_supp st
               \<and> find_pos supp ((96 + n + i) mod 2 ^ 32) = length supp
               \<and> \<not> lexicographical_compare (prev_supp st) supp)
         \<and> simulate_loop gate vfanin k (num_bits (construct spec)) 0 (construct spec) = Inr steptt
         \<and> st' = \<lparr> tables = map_insert tabs (hd line) steptt, schain = schain st @ supp,
                    prev_gate = gate_of k line, prev_supp = supp \<rparr>"
  using assms unfolding verify_step_def gate_of_def
  by (simp split: if_splits sum.splits flow.splits prod.splits)

lemma verify_step_supp:
  assumes "read_fanins line k 0 tabs0 (4 + 2 ^ k) c0 [] vf0 = Continue (tabs, it, last_fanin, supp, vfanin)"
  shows "supp = supp_of k line"
  using read_fanins_supp [OF assms] by (simp add: supp_of_def fanin_id_def)

lemma verify_loop_Return:
  "verify_loop chain n k spec steps i st = Return r \<Longrightarrow> r = 0"
proof (induction chain n k spec steps i st rule: verify_loop.induct)
  case (1 chain n k spec steps i st)
  from "1.prems" show ?case
    by (subst (asm) verify_loop.simps)
       (auto split: if_splits flow.splits dest: verify_step_Return "1.IH")
qed

lemma verify_loop_unfold:
  assumes "verify_loop chain n k spec steps i st = Continue stf" and "i < steps"
  shows "\<exists>st'. verify_step n k spec i (chain ! i) st = Continue st'
           \<and> verify_loop chain n k spec steps (Suc i) st' = Continue stf"
  using assms by (subst (asm) verify_loop.simps) (auto split: flow.splits)

lemma verify_loop_reach:
  assumes "verify_loop chain n k spec steps i0 st0 = Continue stf" and "i0 \<le> i" and "i < steps"
    and "I i0 st0"
    and pres: "\<forall>j st st'. j < steps \<longrightarrow> I j st \<longrightarrow>
                 verify_step n k spec j (chain ! j) st = Continue st' \<longrightarrow> I (Suc j) st'"
  shows "\<exists>st st'. I i st \<and> verify_step n k spec i (chain ! i) st = Continue st'
           \<and> verify_loop chain n k spec steps (Suc i) st' = Continue stf"
  using assms(1,2,4)
proof (induction "i - i0" arbitrary: i0 st0)
  case 0
  then have "i0 = i" by simp
  with "0.prems" verify_loop_unfold [OF _ assms(3)] show ?case by blast
next
  case (Suc d)
  then have lt: "i0 < steps" and le: "Suc i0 \<le> i" and d: "d = i - Suc i0"
    using assms(3) by simp_all
  from verify_loop_unfold [OF Suc.prems(1) lt] obtain st1 where
    step: "verify_step n k spec i0 (chain ! i0) st0 = Continue st1"
    and rest: "verify_loop chain n k spec steps (Suc i0) st1 = Continue stf"
    by blast
  have "I (Suc i0) st1"
    using pres [rule_format, OF lt Suc.prems(3) step] .
  with Suc.hyps(1) [OF d rest le] show ?case .
qed


lemma verify_pass_loop:
  assumes "verify chain n hextt k steps = Inr (r, msgs)" and "r \<noteq> 0"
  shows "\<exists>spec stf. create_from_hex_string n hextt = Inr spec \<and> length chain = steps
           \<and> verify_loop chain n k spec steps 0 (init_state spec n) = Continue stf"
  using assms unfolding verify_def
  by (auto split: sum.splits if_splits flow.splits dest: verify_loop_Return)

lemma verify_early_Return:
  assumes "verify chain n hextt k steps = Inr (r, msgs)" and "r = 0"
  shows "msgs = []"
  using assms unfolding verify_def
  by (auto split: sum.splits if_splits flow.splits dest: verify_loop_Return)

text \<open>A run of \<open>verify\<close> that ends with a verdict and did not leave the loop over the steps
  through its end returns \<open>0\<close> and has printed nothing.\<close>

lemma verify_not_pass:
  assumes "verify chain n hextt k steps = Inr v"
    and "\<And>spec stf. create_from_hex_string n hextt = Inr spec \<Longrightarrow> length chain = steps \<Longrightarrow>
           verify_loop chain n k spec steps 0 (init_state spec n) = Continue stf \<Longrightarrow> False"
  shows "v = (0, [])"
proof (cases v)
  case (Pair r msgs)
  show ?thesis
  proof (cases "r = 0")
    case True
    with Pair assms(1) verify_early_Return show ?thesis by blast
  next
    case False
    with verify_pass_loop [of chain n hextt k steps r msgs] Pair assms show ?thesis by blast
  qed
qed

lemma is_bound_iff:
  "is_bound n i c \<longleftrightarrow> (\<exists>v<n. c = char_of (97 + v)) \<or> (\<exists>s<i. c = char_of (65 + n + s))"
  by (auto simp: is_bound_def list_ex_iff)

lemma verify_step_tables:
  assumes step: "verify_step n k spec i line st = Continue st'" and spec: "spec \<noteq> []"
  shows "\<exists>gate. create_from_binary_string k (gate_of k line) = Inr gate
           \<and> (\<forall>m<k. fanin_id k line m \<in> dom (tables st))
           \<and> tables st' = map_insert (tables st) (step_name n i)
                (map (\<lambda>x. gate ! local_pattern (map (\<lambda>m. table_of (tables st) (fanin_id k line m)) [0..<k]) x)
                   [0..<length spec])"
proof -
  from verify_step_Continue [OF step] obtain gate tabs last_fanin supp vfanin steptt where
    name: "(of_char (hd line) :: nat) = (65 + n + i) mod 256"
    and gate: "create_from_binary_string k (gate_of k line) = Inr gate"
    and rd: "read_fanins line k 0 (tables st) (4 + 2 ^ k) CHR ''a'' [] (replicate k [])
               = Continue (tabs, length line, last_fanin, supp, vfanin)"
    and sim: "simulate_loop gate vfanin k (num_bits (construct spec)) 0 (construct spec) = Inr steptt"
    and st': "st' = \<lparr> tables = map_insert tabs (hd line) steptt, schain = schain st @ supp,
                      prev_gate = gate_of k line, prev_supp = supp \<rparr>"
    by blast
  define fs where "fs = map (\<lambda>m. table_of (tables st) (fanin_id k line m)) [0..<k]"
  from read_fanins_supp [OF rd] have lenv: "length vfanin = k" by simp
  from read_fanins_vfanin [OF rd] have "\<forall>m<k. vfanin ! m = table_of (tables st) (fanin_id k line m)"
    by (simp add: fanin_id_def)
  with lenv have vf: "vfanin = fs"
    by (intro nth_equalityI) (simp_all add: fs_def)
  have N: "num_bits (construct spec) = length spec" "length (construct spec) = length spec"
    by (simp_all add: num_bits_def construct_def)
  from simulate_loop_Inr [OF sim] N
  have len: "length steptt = length spec"
    and each: "\<forall>y<length spec. \<exists>p. pattern_loop vfanin k y 0 0 = Inr p \<and> p < length gate
                 \<and> (steptt ! y \<longleftrightarrow> construct spec ! y \<or> gate ! p)"
    by simp_all
  have bits: "steptt ! y = gate ! local_pattern fs y" if "y < length spec" for y
  proof -
    from each that obtain p where p: "pattern_loop vfanin k y 0 0 = Inr p"
      and v: "steptt ! y \<longleftrightarrow> construct spec ! y \<or> gate ! p"
      by blast
    from that have "construct spec ! y = False" by (simp add: construct_def)
    with v pattern_loop_local_pattern(1) [OF p lenv] vf show ?thesis by simp
  qed
  with len have steptt: "steptt = map (\<lambda>x. gate ! local_pattern fs x) [0..<length spec]"
    by (intro nth_equalityI) simp_all
  from spec have "0 < length spec" by simp
  with each obtain p0 where "pattern_loop vfanin k 0 0 0 = Inr p0" by blast
  from pattern_loop_local_pattern(3) [OF this lenv] vf
  have "\<forall>m<k. table_of (tables st) (fanin_id k line m) \<noteq> []"
    by (auto simp: fs_def)
  with table_of_unbound have ids: "\<forall>m<k. fanin_id k line m \<in> dom (tables st)"
    by blast
  then have "\<forall>m<k - 0. line ! (4 + 2 ^ k + 2 * m + 1) \<in> dom (tables st)"
    by (simp add: fanin_id_def)
  from read_fanins_tabs [OF rd _ this] have tabs: "tabs = tables st" by simp
  have "hd line = char_of (of_char (hd line) :: nat)" by simp
  also have "\<dots> = step_name n i"
    unfolding name step_name_def by simp
  finally have hd: "hd line = step_name n i" .
  from gate ids st' tabs hd steptt show ?thesis
    by (auto simp: fs_def)
qed

lemma bound_init: "\<forall>c\<in>dom (tables (init_state spec n)). is_bound n 0 c"
  using init_tables_dom [of _ spec n 0 Map.empty]
  by (auto simp: init_state_def is_bound_iff)

lemma bound_step:
  assumes "verify_step n k spec i line st = Continue st'" and "spec \<noteq> []"
    and "\<forall>c\<in>dom (tables st). is_bound n i c"
  shows "\<forall>c\<in>dom (tables st'). is_bound n (Suc i) c"
proof -
  from verify_step_tables [OF assms(1,2)] obtain t where
    "tables st' = map_insert (tables st) (step_name n i) t"
    by blast
  then have "dom (tables st') = insert (step_name n i) (dom (tables st))"
    by (simp add: dom_map_insert)
  moreover have "is_bound n (Suc i) (step_name n i)"
    by (auto simp: is_bound_iff step_name_def)
  moreover have "is_bound n (Suc i) c" if "is_bound n i c" for c
    using that by (auto simp: is_bound_iff less_Suc_eq)
  ultimately show ?thesis using assms(3) by auto
qed





subsection \<open>The canonical order of the steps\<close>

text \<open>
  Claim C1. The cross-support check of lines 118 to 122 is announced as "co-lexicographic
  order violated", but it compares the two supports with \<open>std::lexicographical_compare\<close> from
  the first character on. For the target \<open>a d (b xor c)\<close> the chain below is accepted,
  although the support \<open>bc\<close> of its second step differs from the support \<open>ad\<close> of the first,
  does not contain the name \<open>e\<close> of the first step, and is colexicographically smaller.
\<close>

theorem colex_violation_accepted:
  "verify [''E = 1000 a d'', ''F = 0110 b c'', ''G = 1000 E F''] 4 ''2800'' 2 3 = Inr (1, [])
   \<and> supp_of 2 ''F = 0110 b c'' = ''bc'' \<and> supp_of 2 ''E = 1000 a d'' = ''ad''
   \<and> ''bc'' \<noteq> ''ad''
   \<and> find_pos ''bc'' (of_char CHR ''e'') = length ''bc''
   \<and> colex_less ''bc'' ''ad''
   \<and> lexicographical_compare ''ad'' ''bc''"
  by (simp add: verify_defs kitty_defs std_defs colex_less_def)

text \<open>What the check of lines 118 to 122 enforces is the lexicographic order from the first
  character on: a step after the first whose support differs from the previous one, does
  not contain the previous name in lower case, and is not lexicographically greater than
  the previous support, is rejected.\<close>

lemma cross_support_order:
  assumes "Suc i < length chain"
    and "supp_of fanin (chain ! Suc i) \<noteq> supp_of fanin (chain ! i)"
    and "find_pos (supp_of fanin (chain ! Suc i)) ((96 + num_vars + Suc i) mod 2 ^ 32)
           = length (supp_of fanin (chain ! Suc i))"
    and "\<not> lexicographical_compare (supp_of fanin (chain ! i)) (supp_of fanin (chain ! Suc i))"
    and "verify chain num_vars hextt fanin steps = Inr v"
  shows "v = (0, [])"
proof (rule verify_not_pass [OF assms(5)])
  fix spec stf
  assume len: "length chain = steps"
    and loop: "verify_loop chain num_vars fanin spec steps 0 (init_state spec num_vars) = Continue stf"
  from assms(1) len have lt: "i < steps" and lt': "Suc i < steps" by simp_all
  from verify_loop_reach [where I = "\<lambda>j st. True", OF loop _ lt]
  obtain st st' where prev: "verify_step num_vars fanin spec i (chain ! i) st = Continue st'"
    and rest: "verify_loop chain num_vars fanin spec steps (Suc i) st' = Continue stf"
    by blast
  from verify_loop_unfold [OF rest lt'] obtain st'' where
    cur: "verify_step num_vars fanin spec (Suc i) (chain ! Suc i) st' = Continue st''"
    by blast
  from verify_step_Continue [OF prev] verify_step_supp
  have p: "prev_supp st' = supp_of fanin (chain ! i)"
    by auto
  from verify_step_Continue [OF cur] obtain tabs last_fanin supp vfanin where
    rd: "read_fanins (chain ! Suc i) fanin 0 (tables st') (4 + 2 ^ fanin) CHR ''a'' []
           (replicate fanin []) = Continue (tabs, length (chain ! Suc i), last_fanin, supp, vfanin)"
    and chk: "\<not> (Suc i \<noteq> 0 \<and> supp \<noteq> prev_supp st'
                \<and> find_pos supp ((96 + num_vars + Suc i) mod 2 ^ 32) = length supp
                \<and> \<not> lexicographical_compare (prev_supp st') supp)"
    by blast
  from verify_step_supp [OF rd] have "supp = supp_of fanin (chain ! Suc i)" .
  with chk p assms(2,3,4) show False by simp
qed




text \<open>The check of lines 112 to 116 is stricter than the order it is named after: a step that
  repeats the support and the gate string of the step before it is rejected as well.\<close>

lemma lexicographical_compare_irrefl: "\<not> lexicographical_compare a a"
  by (induction a) auto

lemma same_support_equal_gate:
  assumes "Suc i < length chain"
    and "supp_of fanin (chain ! Suc i) = supp_of fanin (chain ! i)"
    and "gate_of fanin (chain ! Suc i) = gate_of fanin (chain ! i)"
    and "verify chain num_vars hextt fanin steps = Inr v"
  shows "v = (0, [])"
proof (rule verify_not_pass [OF assms(4)])
  fix spec stf
  assume len: "length chain = steps"
    and loop: "verify_loop chain num_vars fanin spec steps 0 (init_state spec num_vars) = Continue stf"
  from assms(1) len have lt: "i < steps" and lt': "Suc i < steps" by simp_all
  from verify_loop_reach [where I = "\<lambda>j st. True", OF loop _ lt]
  obtain st st' where prev: "verify_step num_vars fanin spec i (chain ! i) st = Continue st'"
    and rest: "verify_loop chain num_vars fanin spec steps (Suc i) st' = Continue stf"
    by blast
  from verify_loop_unfold [OF rest lt'] obtain st'' where
    cur: "verify_step num_vars fanin spec (Suc i) (chain ! Suc i) st' = Continue st''"
    by blast
  from verify_step_Continue [OF prev] verify_step_supp
  have p: "prev_supp st' = supp_of fanin (chain ! i)" "prev_gate st' = gate_of fanin (chain ! i)"
    by auto
  from verify_step_Continue [OF cur] obtain tabs last_fanin supp vfanin where
    rd: "read_fanins (chain ! Suc i) fanin 0 (tables st') (4 + 2 ^ fanin) CHR ''a'' []
           (replicate fanin []) = Continue (tabs, length (chain ! Suc i), last_fanin, supp, vfanin)"
    and chk: "\<not> (supp = prev_supp st'
                \<and> \<not> lexicographical_compare (prev_gate st') (gate_of fanin (chain ! Suc i)))"
    by blast
  from verify_step_supp [OF rd] assms(2) p have "supp = prev_supp st'" by simp
  with chk p assms(3) lexicographical_compare_irrefl show False by simp
qed

subsection \<open>Fanin identifiers\<close>

text \<open>
  Claim C3, as the code has it. \<open>verify\<close> never tests whether a fanin identifier is bound:
  \<open>tables[*it++]\<close> binds an unknown identifier to an empty table, and the simulation of the
  step then reads a bit of that table. A chain with such a step is never accepted: a run on
  it that ends with a verdict returns \<open>0\<close>, for another violation.
\<close>

theorem unbound_fanin_never_accepted:
  assumes "i < length chain" and "m < fanin"
    and "\<not> is_bound num_vars i (fanin_id fanin (chain ! i) m)"
    and "verify chain num_vars hextt fanin steps = Inr v"
  shows "v = (0, [])"
proof (rule verify_not_pass [OF assms(4)])
  fix spec stf
  assume hex: "create_from_hex_string num_vars hextt = Inr spec" and len: "length chain = steps"
    and loop: "verify_loop chain num_vars fanin spec steps 0 (init_state spec num_vars) = Continue stf"
  from create_from_hex_string_length [OF hex] have spec: "spec \<noteq> []" by auto
  from assms(1) len have "i < steps" by simp
  have pres: "\<forall>j st st'. j < steps \<longrightarrow> (\<forall>c\<in>dom (tables st). is_bound num_vars j c) \<longrightarrow>
      verify_step num_vars fanin spec j (chain ! j) st = Continue st' \<longrightarrow>
      (\<forall>c\<in>dom (tables st'). is_bound num_vars (Suc j) c)"
    using bound_step [OF _ spec] by blast
  from verify_loop_reach [where I = "\<lambda>j st. \<forall>c\<in>dom (tables st). is_bound num_vars j c",
      OF loop _ \<open>i < steps\<close> bound_init pres]
  obtain st st' where inv: "\<forall>c\<in>dom (tables st). is_bound num_vars i c"
    and step: "verify_step num_vars fanin spec i (chain ! i) st = Continue st'"
    by blast
  from verify_step_tables [OF step spec] assms(2)
  have "fanin_id fanin (chain ! i) m \<in> dom (tables st)" by blast
  with inv assms(3) show False by blast
qed

text \<open>The step \<open>C = 1000 a zz\<close> names the unbound \<open>z\<close> and is rejected for its trailing character.\<close>

theorem unbound_fanin_never_accepted_witness:
  "(0::nat) < length [''C = 1000 a zz''] \<and> (1::nat) < 2
   \<and> \<not> is_bound 2 0 (fanin_id 2 ([''C = 1000 a zz''] ! 0) 1)
   \<and> verify [''C = 1000 a zz''] 2 ''8'' 2 1 = Inr (0, [])"
proof -
  have h1: "(0::nat) < length [''C = 1000 a zz'']" by simp
  have h2: "(1::nat) < 2" by simp
  have h3: "\<not> is_bound 2 0 (fanin_id 2 ([''C = 1000 a zz''] ! 0) 1)"
    by (simp add: is_bound_def fanin_id_def std_defs)
  have h4: "verify [''C = 1000 a zz''] 2 ''8'' 2 1 = Inr (0, [])"
    by (simp add: verify_defs kitty_defs std_defs)
  from unbound_fanin_never_accepted [OF h1 h2 h3 h4] h1 h2 h3 h4 show ?thesis by simp
qed

text \<open>Claim C3 as stated fails: on \<open>C = 1000 a z\<close>, well-formed but for the unbound \<open>z\<close>, the run
  is not marked failed; it ends in the out-of-range read of the empty table.\<close>

theorem unbound_fanin_not_reported:
  "\<not> is_bound 2 0 (fanin_id 2 ([''C = 1000 a z''] ! 0) 1)
   \<and> verify [''C = 1000 a z''] 2 ''8'' 2 1 = Inl OutOfRange
   \<and> verify [''C = 1000 a z''] 2 ''8'' 2 1 \<noteq> Inr (0, [])"
  by (simp add: verify_defs kitty_defs std_defs is_bound_def)

subsection \<open>Evaluation of a chain\<close>




subsection \<open>Rejected steps\<close>







subsection \<open>The symmetry check\<close>

lemma symmetry_inner_set:
  "set (symmetry_inner spec sch j i msgs)
     = set msgs \<union> {(i', j) | i'. i \<le> i' \<and> i' < j \<and> advisory spec sch i' j}"
proof (induction spec sch j i msgs rule: symmetry_inner.induct)
  case (1 spec sch j i msgs)
  show ?case
  proof (cases "i < j")
    case False
    then show ?thesis
      by (subst symmetry_inner.simps) auto
  next
    case True
    have split: "i \<le> i' \<longleftrightarrow> i' = i \<or> Suc i \<le> i'" for i'
      by auto
    from "1.IH" [OF True] True show ?thesis
      by (subst symmetry_inner.simps) (auto simp: advisory_def split)
  qed
qed

lemma symmetry_outer_set:
  "set (symmetry_outer spec n sch j msgs)
     = set msgs \<union> {(i', j'). j \<le> j' \<and> j' < n \<and> i' < j' \<and> advisory spec sch i' j'}"
proof (induction spec n sch j msgs rule: symmetry_outer.induct)
  case (1 spec n sch j msgs)
  show ?case
  proof (cases "j < n")
    case False
    then show ?thesis
      by (subst symmetry_outer.simps) auto
  next
    case True
    have split: "j \<le> j' \<longleftrightarrow> j' = j \<or> Suc j \<le> j'" for j'
      by auto
    from "1.IH" [OF True] True show ?thesis
      by (subst symmetry_outer.simps) (auto simp: symmetry_inner_set split)
  qed
qed

text \<open>
  Claim C7. For a chain that passes the checks of every step and whose final table equals
  the target, the symmetry check does not change the result: \<open>verify\<close> returns \<open>1\<close>, also
  when the target is symmetric in a pair \<open>i < j\<close> of inputs and the letter of \<open>j\<close> occurs
  before the letter of \<open>i\<close>, in which case the pair is among the messages printed; the
  aggregator increments \<open>points\<close> and leaves \<open>violations\<close> as it is (lines 157 to 169).
\<close>

theorem symmetry_audit_advisory:
  assumes hex: "create_from_hex_string num_vars hextt = Inr spec" and len: "length chain = steps"
    and loop: "verify_loop chain num_vars fanin spec steps 0 (init_state spec num_vars) = Continue stf"
    and eq: "tt_equal (table_of (tables stf) (char_of (64 + num_vars + steps))) spec = Inr True"
  shows "\<exists>msgs. verify chain num_vars hextt fanin steps = Inr (1, msgs)
           \<and> (\<forall>i j. i < j \<and> j < num_vars \<and> advisory spec (schain stf) i j \<longrightarrow> (i, j) \<in> set msgs)
           \<and> (\<forall>points violations printed. points \<noteq> 2147483647 \<longrightarrow>
                 score_chain num_vars hextt fanin steps chain (points, violations, printed)
                   = Inr (points + 1, violations, printed @ msgs))"
proof -
  define msgs where "msgs = symmetry_outer spec num_vars (schain stf) 1 []"
  from hex len loop eq have v: "verify chain num_vars hextt fanin steps = Inr (1, msgs)"
    by (simp add: verify_def table_of_def msgs_def)
  have "(i, j) \<in> set msgs" if "i < j \<and> j < num_vars \<and> advisory spec (schain stf) i j" for i j
    using that by (auto simp: msgs_def symmetry_outer_set)
  moreover have "score_chain num_vars hextt fanin steps chain (points, violations, printed)
                   = Inr (points + 1, violations, printed @ msgs)"
    if "points \<noteq> 2147483647" for points violations printed
    using that v by (simp add: score_chain_def)
  ultimately show ?thesis using v by blast
qed

text \<open>In \<open>D = 1000 b c\<close>, \<open>E = 1000 a D\<close> the letter \<open>b\<close> occurs before \<open>a\<close>, and the conjunction is
  symmetric in the two.\<close>

theorem symmetry_audit_advisory_witness:
  "create_from_hex_string 3 ''80'' = Inr and3_spec
   \<and> length [''D = 1000 b c'', ''E = 1000 a D''] = 2
   \<and> verify_loop [''D = 1000 b c'', ''E = 1000 a D''] 3 2 and3_spec 2 0 (init_state and3_spec 3)
       = Continue and3_final
   \<and> tt_equal (table_of (tables and3_final) (char_of (64 + 3 + 2 :: nat))) and3_spec = Inr True
   \<and> (0::nat) < 1 \<and> (1::nat) < 3 \<and> advisory and3_spec (schain and3_final) 0 1
   \<and> verify [''D = 1000 b c'', ''E = 1000 a D''] 3 ''80'' 2 2 = Inr (1, [(0, 1), (0, 2)])
   \<and> score_chain 3 ''80'' 2 2 [''D = 1000 b c'', ''E = 1000 a D''] (0, 0, [])
       = Inr (1, 0, [(0, 1), (0, 2)])"
proof -
  have h2: "length [''D = 1000 b c'', ''E = 1000 a D''] = 2" by simp
  have h4: "tt_equal (table_of (tables and3_final) (char_of (64 + 3 + 2 :: nat))) and3_spec = Inr True"
    by (simp add: and3_final_def and3_spec_def tt_equal_def table_of_def std_defs)
  have adv: "advisory and3_spec (schain and3_final) 0 1"
    by (simp add: advisory_def and3_final_def and3_spec_def kitty_defs upt_rec)
  from symmetry_audit_advisory [OF and3_hex h2 and3_loop h4] obtain msgs where
    v: "verify [''D = 1000 b c'', ''E = 1000 a D''] 3 ''80'' 2 2 = Inr (1, msgs)"
    and s: "\<forall>points violations printed. points \<noteq> 2147483647 \<longrightarrow>
              score_chain 3 ''80'' 2 2 [''D = 1000 b c'', ''E = 1000 a D''] (points, violations, printed)
                = Inr (points + 1, violations, printed @ msgs)"
    by blast
  from v and3_verify have "msgs = [(0, 1), (0, 2)]" by simp
  with s have "score_chain 3 ''80'' 2 2 [''D = 1000 b c'', ''E = 1000 a D''] (0, 0, [])
                 = Inr (1, 0, [(0, 1), (0, 2)])"
    by simp
  with and3_hex h2 and3_loop h4 adv and3_verify show ?thesis by simp
qed

subsection \<open>\<open>main\<close>\<close>

text \<open>Scenario D of the specification: two blocks, the first passes and the second fails.\<close>

lemma scenario_D:
  "main [''bln_verify'', ''2'', ''8'', ''2'', ''1'']
        [''8-2-1.bln'' \<mapsto> [''C = 1000 a b'', '''', ''C = 0001 a b'']]
     = Inr \<lparr> cerr = [], symmetry_messages = [], violations_line = 1, solutions_line = 2,
             points_line = 1, exit_status = 0 \<rparr>"
  by (simp add: main_defs scenario_A_Suc scenario_B_Suc)

text \<open>One chain scored: \<open>points\<close> grows by one, \<open>violations\<close> by one when \<open>verify\<close> returned \<open>0\<close>.
  While fewer than 31 chains have failed, the score printed is \<open>points / 2 ^ violations\<close>.\<close>

lemma score_chain_violations:
  assumes "score_chain n h k s chain (p, v, out) = Inr (p', v', out')"
  shows "\<exists>r msgs. verify chain n h k s = Inr (r, msgs) \<and> p' = Suc p
           \<and> v' = (if r = 0 then Suc v else v)"
  using assms by (auto simp: score_chain_def split: sum.splits prod.splits if_splits)

lemma score_formula:
  assumes "main argv fs = Inr out" and "violations_line out < 31"
  shows "points_line out = of_nat (solutions_line out) / 2 ^ violations_line out"
  using assms
  by (auto simp: main_def shift_one_def Let_def split: sum.splits prod.splits if_splits)

lemma failing_blocks:
  "points + m \<le> 2147483647 \<Longrightarrow>
   read_lines 2 ''8'' 2 1 (concat (replicate m [''C = 0001 a b'', ''''])) ([], points, violations, printed)
     = Inr ([], points + m, violations + m, printed)"
proof (induction m arbitrary: points violations)
  case 0
  then show ?case by simp
next
  case (Suc m)
  have "read_lines 2 ''8'' 2 1 (concat (replicate (Suc m) [''C = 0001 a b'', '''']))
          ([], points, violations, printed)
        = read_lines 2 ''8'' 2 1 (concat (replicate m [''C = 0001 a b'', '''']))
            ([], Suc points, Suc violations, printed)"
    using Suc.prems by (simp add: trim_def trim_copy_def isspace_def score_chain_def scenario_B_Suc)
  also have "\<dots> = Inr ([], Suc points + m, Suc violations + m, printed)"
    using Suc.prems by (intro Suc.IH) simp
  finally show ?case by simp
qed

text \<open>
  Claim C8. The score is computed as \<open>double(points) / (1 << violations)\<close>, with the shift
  on a 32-bit \<open>int\<close>. For a file of 31 blocks that all fail, \<open>1 << 31\<close> is the smallest
  \<open>int\<close>, and the value printed is \<open>31 / - 2 ^ 31\<close>, not \<open>31 / 2 ^ 31\<close> (line 221).
\<close>

theorem score_overflow:
  "main [''bln_verify'', ''2'', ''8'', ''2'', ''1'']
        [''8-2-1.bln'' \<mapsto> concat (replicate 31 [''C = 0001 a b'', ''''])]
     = Inr \<lparr> cerr = [], symmetry_messages = [], violations_line = 31, solutions_line = 31,
             points_line = - (31 / 2 ^ 31), exit_status = 0 \<rparr>"
proof -
  have "process_lines 2 ''8'' 2 1 (concat (replicate 31 [''C = 0001 a b'', ''''])) = Inr (31, 31, [])"
    using failing_blocks [of 0 31 0 "[]"] by (simp add: process_lines_def)
  then show ?thesis
    by (simp add: main_def arg_def stoi_def isspace_def isdigit_def to_unsigned_def
        dec_string.simps shift_one_def char_of_numeral_eq)
qed

text \<open>
  Claim C9. With a fifth argument after the four parameters, \<open>main\<close> writes the usage
  line and goes on: there is no \<open>return\<close> in the branch of lines 174 to 177. It reads the
  file, verifies the chain, prints the summary and ends with status \<open>0\<close>.
\<close>

theorem extra_argument_proceeds:
  "main [''bln_verify'', ''2'', ''8'', ''2'', ''1'', ''extra'']
        [''8-2-1.bln'' \<mapsto> [''C = 1000 a b'']]
     = Inr \<lparr> cerr = [''[e] usage bln_verify <#VARS> <HEX-TT> <#FANIN> <#STEPS>''],
             symmetry_messages = [], violations_line = 0, solutions_line = 1,
             points_line = 1, exit_status = 0 \<rparr>"
  by (simp add: main_defs scenario_A_Suc)







end
